theory Spec2Isabelle
  imports Main
begin

section \<open>The undo manager of src/editor/undo.ts\<close>

text \<open>
  The class \<open>UndoManager\<close> keeps a bounded stack of document snapshots, an index into
  it, a recording flag and the tag of the last recorded operation. Each method is
  embedded as a function from the object's state to its new state (with the returned
  boolean where the method has one). JavaScript numbers are modelled as \<open>int\<close>: every
  value of \<open>index\<close> the class can compute is a small integer. A read of an array
  element out of range yields \<open>undefined\<close> in JavaScript; using that value as a
  snapshot is modelled as the error \<open>TypeError\<close>. The calls of \<open>console.log\<close> are
  diagnostic output and are left out of the state.
\<close>

subsection \<open>The document model\<close>

text \<open>
  \<open>ModelState\<close> is imported by the source from the editor model. The class reads two of
  its fields: \<open>content\<close> (in the trace output) and \<open>selection\<close> (in \<open>stopCoalescing\<close>).
\<close>

record ('c, 's) ModelState =
  content :: 'c
  selection :: 's

text \<open>The options object that \<open>undo\<close> and \<open>redo\<close> pass to \<open>setState\<close>.\<close>

record SetStateOptions =
  silenceNotifications :: bool
  type :: string

text \<open>
  Modelled from the spec: the class \<open>ModelPrivate\<close> is not part of the source file; the
  specification describes it by two operations. \<open>getState\<close> produces a deep, independent
  copy of the current content and selection, and \<open>setState\<close> restores the model to
  exactly the given snapshot and applies the transition metadata. The model is
  therefore a record of its current state and of the transitions it was told about, and
  snapshots are values (no two stack entries share storage).
\<close>

record ('c, 's) ModelPrivate =
  state :: "('c, 's) ModelState"
  transitions :: "SetStateOptions list"

text \<open>
  Modelled from the spec: \<open>getState() -> Snapshot\<close> of the absent class \<open>ModelPrivate\<close>
  produces a snapshot capturing the current content and selection, an independent copy.
\<close>

definition getState :: "('c, 's) ModelPrivate \<Rightarrow> ('c, 's) ModelState" where
  "getState m = state m"

text \<open>
  Modelled from the spec: \<open>setState(snapshot, options)\<close> of the absent class
  \<open>ModelPrivate\<close> restores the model to exactly the given snapshot and applies the
  given transition metadata; the metadata is kept in the order of the calls.
\<close>

definition setState ::
  "('c, 's) ModelState \<Rightarrow> SetStateOptions \<Rightarrow> ('c, 's) ModelPrivate \<Rightarrow> ('c, 's) ModelPrivate" where
  "setState snap opts m = m\<lparr>state := snap, transitions := transitions m @ [opts]\<rparr>"

subsection \<open>JavaScript arrays\<close>

datatype error = TypeError

text \<open>\<open>xs[i]\<close>: the element, or \<open>undefined\<close> (here \<open>None\<close>) out of range.\<close>

definition element_at :: "'a list \<Rightarrow> int \<Rightarrow> 'a option" where
  "element_at xs i = (if 0 \<le> i \<and> i < int (length xs) then Some (xs ! nat i) else None)"

text \<open>
  \<open>xs.splice(start, deleteCount)\<close> with two arguments, as ECMAScript defines it: a
  negative start counts from the end, the start is clamped to the array, and the count
  is clamped to what is left. The result is the array after the removal.
\<close>

definition splice :: "'a list \<Rightarrow> int \<Rightarrow> int \<Rightarrow> 'a list" where
  "splice xs start deleteCount =
     (let len = int (length xs);
          actualStart = (if start < 0 then max (len + start) 0 else min start len);
          actualDeleteCount = min (max deleteCount 0) (len - actualStart)
      in take (nat actualStart) xs @ drop (nat (actualStart + actualDeleteCount)) xs)"

text \<open>\<open>xs.shift()\<close> removes the first element (nothing, on an empty array).\<close>

definition shift :: "'a list \<Rightarrow> 'a list" where
  "shift xs = (case xs of [] \<Rightarrow> [] | _ # rest \<Rightarrow> rest)"

text \<open>\<open>xs.push(x)\<close> appends.\<close>

definition push :: "'a list \<Rightarrow> 'a \<Rightarrow> 'a list" where
  "push xs x = xs @ [x]"

subsection \<open>The class\<close>

record ('c, 's) UndoManager =
  model :: "('c, 's) ModelPrivate"
  recording :: bool
  stack :: "('c, 's) ModelState list"
  index :: int
  lastOp :: string

definition maximumDepth :: nat where
  "maximumDepth = 1000"

definition reset :: "('c, 's) UndoManager \<Rightarrow> ('c, 's) UndoManager" where
  "reset u = u\<lparr>stack := [], index := - 1, lastOp := ''''\<rparr>"

text \<open>
  The constructor stores the model and calls \<open>reset\<close>; \<open>recording\<close> is initialised to
  false. The three fields that \<open>reset\<close> assigns have no value before the call.
\<close>

definition constructor :: "('c, 's) ModelPrivate \<Rightarrow> ('c, 's) UndoManager" where
  "constructor m =
     reset \<lparr>model = m, recording = False, stack = [], index = - 1, lastOp = ''''\<rparr>"

definition startRecording :: "('c, 's) UndoManager \<Rightarrow> ('c, 's) UndoManager" where
  "startRecording u = u\<lparr>recording := True\<rparr>"

definition stopRecording :: "('c, 's) UndoManager \<Rightarrow> ('c, 's) UndoManager" where
  "stopRecording u = u\<lparr>recording := False\<rparr>"

definition canUndo :: "('c, 's) UndoManager \<Rightarrow> bool" where
  "canUndo u = (index u - 1 \<ge> 0)"

definition canRedo :: "('c, 's) UndoManager \<Rightarrow> bool" where
  "canRedo u = (int (length (stack u)) - 1 > index u)"

text \<open>
  \<open>stopCoalescing(selection?)\<close>: the argument is an object or absent, so it is truthy
  exactly when it is given. The assignment to \<open>stack[index].selection\<close> throws when the
  element is \<open>undefined\<close>.
\<close>

definition stopCoalescing ::
  "'s option \<Rightarrow> ('c, 's) UndoManager \<Rightarrow> error + ('c, 's) UndoManager" where
  "stopCoalescing sel u =
     (case sel of
        None \<Rightarrow> Inr (u\<lparr>lastOp := ''''\<rparr>)
      | Some v \<Rightarrow>
          if index u \<ge> 0 then
            (case element_at (stack u) (index u) of
               None \<Rightarrow> Inl TypeError
             | Some e \<Rightarrow>
                 Inr (u\<lparr>stack := (stack u)[nat (index u) := e\<lparr>selection := v\<rparr>],
                        lastOp := ''''\<rparr>))
          else Inr (u\<lparr>lastOp := ''''\<rparr>))"

text \<open>
  \<open>undo\<close> hands \<open>stack[index - 1]\<close> to the model with the transition type \<open>undo\<close>, then
  steps the index back and clears the tag.
\<close>

definition undo :: "('c, 's) UndoManager \<Rightarrow> error + (bool \<times> ('c, 's) UndoManager)" where
  "undo u =
     (if \<not> canUndo u then Inr (False, u)
      else
        (case element_at (stack u) (index u - 1) of
           None \<Rightarrow> Inl TypeError
         | Some snap \<Rightarrow>
             Inr (True,
               u\<lparr>model :=
                    setState snap \<lparr>silenceNotifications = False, type = ''undo''\<rparr> (model u),
                  index := index u - 1,
                  lastOp := ''''\<rparr>)))"

text \<open>\<open>redo\<close> advances the index first and hands the element now at the index to the model.\<close>

definition redo :: "('c, 's) UndoManager \<Rightarrow> error + (bool \<times> ('c, 's) UndoManager)" where
  "redo u =
     (if \<not> canRedo u then Inr (False, u)
      else
        (let u1 = u\<lparr>index := index u + 1\<rparr> in
         case element_at (stack u1) (index u1) of
           None \<Rightarrow> Inl TypeError
         | Some snap \<Rightarrow>
             Inr (True,
               u1\<lparr>model :=
                     setState snap \<lparr>silenceNotifications = False, type = ''redo''\<rparr> (model u1),
                   lastOp := ''''\<rparr>)))"

definition pop :: "('c, 's) UndoManager \<Rightarrow> ('c, 's) UndoManager" where
  "pop u =
     (if \<not> canUndo u then u
      else u\<lparr>stack := splice (stack u) (index u) (int (length (stack u)) - index u),
             index := index u - 1\<rparr>)"

text \<open>
  \<open>snapshot(op?)\<close>. The test \<open>op && op === this.lastOp\<close> holds when \<open>op\<close> is given, is
  not the empty string and equals the tag; \<open>op ?? ''\<close> is the tag given, or the empty
  string.
\<close>

definition truthy :: "string option \<Rightarrow> bool" where
  "truthy op = (case op of None \<Rightarrow> False | Some t \<Rightarrow> t \<noteq> '''')"

definition snapshot ::
  "string option \<Rightarrow> ('c, 's) UndoManager \<Rightarrow> bool \<times> ('c, 's) UndoManager" where
  "snapshot op u =
     (if \<not> recording u then (False, u)
      else
        (let u1 = (if truthy op \<and> op = Some (lastOp u) then pop u else u);
             u2 = u1\<lparr>stack := splice (stack u1) (index u1 + 1)
                                  (int (length (stack u1)) - index u1 - 1)\<rparr>;
             u3 = u2\<lparr>stack := push (stack u2) (getState (model u2))\<rparr>;
             u4 = u3\<lparr>index := index u3 + 1\<rparr>;
             u5 = (if length (stack u4) > maximumDepth
                   then u4\<lparr>stack := shift (stack u4), index := index u4 - 1\<rparr>
                   else u4)
         in (True, u5\<lparr>lastOp := (case op of None \<Rightarrow> '''' | Some t \<Rightarrow> t)\<rparr>)))"

subsection \<open>Histories of calls\<close>

text \<open>
  Between two calls of the class the host edits the document; the class holds only a
  reference to the model, so the edit changes what the next \<open>getState\<close> returns and
  nothing else.
\<close>

definition hostEdit :: "('c, 's) ModelState \<Rightarrow> ('c, 's) UndoManager \<Rightarrow> ('c, 's) UndoManager" where
  "hostEdit d u = u\<lparr>model := (model u)\<lparr>state := d\<rparr>\<rparr>"

text \<open>The public operations of the class, and the host's edit.\<close>

datatype ('c, 's) call =
    Reset
  | StartRecording
  | StopRecording
  | StopCoalescing "'s option"
  | Snapshot "string option"
  | Pop
  | Undo
  | Redo
  | HostEdit "('c, 's) ModelState"

fun apply_call :: "('c, 's) call \<Rightarrow> ('c, 's) UndoManager \<Rightarrow> error + ('c, 's) UndoManager" where
  "apply_call Reset u = Inr (reset u)"
| "apply_call StartRecording u = Inr (startRecording u)"
| "apply_call StopRecording u = Inr (stopRecording u)"
| "apply_call (StopCoalescing sel) u = stopCoalescing sel u"
| "apply_call (Snapshot op) u = Inr (snd (snapshot op u))"
| "apply_call Pop u = Inr (pop u)"
| "apply_call Undo u = (case undo u of Inl e \<Rightarrow> Inl e | Inr (_, u') \<Rightarrow> Inr u')"
| "apply_call Redo u = (case redo u of Inl e \<Rightarrow> Inl e | Inr (_, u') \<Rightarrow> Inr u')"
| "apply_call (HostEdit d) u = Inr (hostEdit d u)"

text \<open>A history runs its calls in order and stops at the first exception.\<close>

fun run :: "('c, 's) call list \<Rightarrow> ('c, 's) UndoManager \<Rightarrow> error + ('c, 's) UndoManager" where
  "run [] u = Inr u"
| "run (c # cs) u = (case apply_call c u of Inl e \<Rightarrow> Inl e | Inr u' \<Rightarrow> run cs u')"

text \<open>
  A series of edits, each recorded by a snapshot with its tag: the host changes the
  document to \<open>d\<close> and calls \<open>snapshot(op)\<close>.
\<close>

fun record_all ::
  "(('c, 's) ModelState \<times> string option) list \<Rightarrow> ('c, 's) UndoManager \<Rightarrow> ('c, 's) UndoManager" where
  "record_all [] u = u"
| "record_all ((d, op) # rest) u = record_all rest (snd (snapshot op (hostEdit d u)))"

text \<open>
  A series of tags is non-coalescing from the tag \<open>tag\<close> when no call meets the test
  \<open>op && op === this.lastOp\<close> of \<open>snapshot\<close>.
\<close>

fun noncoalescing :: "string \<Rightarrow> string option list \<Rightarrow> bool" where
  "noncoalescing tag [] = True"
| "noncoalescing tag (op # ops) =
     (\<not> (truthy op \<and> op = Some tag) \<and>
      noncoalescing (case op of None \<Rightarrow> '''' | Some t \<Rightarrow> t) ops)"

subsection \<open>What a snapshot keeps\<close>

text \<open>
  The number of entries below the new one after \<open>snapshot(op)\<close>: those up to the index,
  without the current one when the call coalesces (the test on the tag holds and \<open>pop\<close>
  finds an undo target); and the stack that results before the depth is checked.
\<close>

definition kept :: "string option \<Rightarrow> ('c, 's) UndoManager \<Rightarrow> nat" where
  "kept op u =
     (if truthy op \<and> op = Some (lastOp u) \<and> canUndo u then nat (index u)
      else nat (index u + 1))"

definition recorded :: "string option \<Rightarrow> ('c, 's) UndoManager \<Rightarrow> ('c, 's) ModelState list" where
  "recorded op u = take (kept op u) (stack u) @ [state (model u)]"

subsection \<open>Invariants\<close>

text \<open>The index is \<open>-1\<close> on an empty stack and otherwise the position of an element.\<close>

definition position_valid :: "('c, 's) UndoManager \<Rightarrow> bool" where
  "position_valid u =
     ((index u = - 1 \<and> stack u = []) \<or>
      (0 \<le> index u \<and> index u < int (length (stack u))))"

definition depth_bounded :: "('c, 's) UndoManager \<Rightarrow> bool" where
  "depth_bounded u = (length (stack u) \<le> maximumDepth)"

text \<open>A tag is remembered only while the index is at the newest entry.\<close>

definition tag_at_newest :: "('c, 's) UndoManager \<Rightarrow> bool" where
  "tag_at_newest u = (lastOp u = '''' \<or> index u = int (length (stack u)) - 1)"

subsection \<open>Sample objects\<close>

definition doc :: "nat \<Rightarrow> (nat, nat) ModelState" where
  "doc n = \<lparr>content = n, selection = 0\<rparr>"

definition fresh :: "(nat, nat) UndoManager" where
  "fresh = constructor \<lparr>state = doc 0, transitions = []\<rparr>"

text \<open>A recording object with three entries, at the newest one.\<close>

definition depth3 :: "(nat, nat) UndoManager" where
  "depth3 =
     \<lparr>model = \<lparr>state = doc 3, transitions = []\<rparr>, recording = True,
      stack = [doc 1, doc 2, doc 3], index = 2, lastOp = ''''\<rparr>"

text \<open>The same object after \<open>undo\<close>: the model shows the second entry.\<close>

definition depth3_undone :: "(nat, nat) UndoManager" where
  "depth3_undone =
     \<lparr>model = \<lparr>state = doc 2,
               transitions = [\<lparr>silenceNotifications = False, type = ''undo''\<rparr>]\<rparr>,
      recording = True, stack = [doc 1, doc 2, doc 3], index = 1, lastOp = ''''\<rparr>"

text \<open>A recording object with two entries whose last operation was an insertion.\<close>

definition typing :: "(nat, nat) UndoManager" where
  "typing =
     \<lparr>model = \<lparr>state = doc 2, transitions = []\<rparr>, recording = True,
      stack = [doc 1, doc 2], index = 1, lastOp = ''insert''\<rparr>"

text \<open>A series of \<open>n\<close> distinct documents, each recorded without a tag.\<close>

definition edits :: "nat \<Rightarrow> ((nat, nat) ModelState \<times> string option) list" where
  "edits n = map (\<lambda>k. (doc k, None)) [0..<n]"

section \<open>Properties\<close>

subsection \<open>The array operations in range\<close>

lemma splice_rest:
  "0 \<le> i \<Longrightarrow> int (length xs) \<le> i + n \<Longrightarrow> splice xs i n = take (nat i) xs"
  by (auto simp: splice_def Let_def min_def max_def)

lemma shift_tl: "shift xs = tl xs"
  by (cases xs) (simp_all add: shift_def)

subsection \<open>The methods in a valid state\<close>

lemma pop_eq:
  "pop u = (if canUndo u then u\<lparr>stack := take (nat (index u)) (stack u), index := index u - 1\<rparr> else u)"
  by (simp add: pop_def canUndo_def splice_rest)

lemma kept_le: "position_valid u \<Longrightarrow> kept op u \<le> length (stack u)"
  by (auto simp: kept_def position_valid_def)

lemma snapshot_eq:
  assumes "position_valid u" "recording u"
  shows "snapshot op u =
     (True,
      if length (recorded op u) > maximumDepth
      then u\<lparr>stack := tl (recorded op u),
             index := int (kept op u) - 1,
             lastOp := (case op of None \<Rightarrow> '''' | Some t \<Rightarrow> t)\<rparr>
      else u\<lparr>stack := recorded op u,
             index := int (kept op u),
             lastOp := (case op of None \<Rightarrow> '''' | Some t \<Rightarrow> t)\<rparr>)"
proof (cases "truthy op \<and> op = Some (lastOp u) \<and> canUndo u")
  case True
  then have k: "kept op u = nat (index u)" by (auto simp: kept_def)
  from True have i: "1 \<le> index u" by (simp add: canUndo_def)
  with assms have l: "nat (index u) < length (stack u)" by (auto simp: position_valid_def)
  have p: "(if truthy op \<and> op = Some (lastOp u) then pop u else u) =
      u\<lparr>stack := take (nat (index u)) (stack u), index := index u - 1\<rparr>"
    using True by (auto simp: pop_eq)
  show ?thesis using i l assms(2)
    unfolding snapshot_def p recorded_def k
    by (simp add: Let_def splice_rest push_def shift_tl getState_def)
next
  case False
  then have k: "kept op u = nat (index u + 1)" by (auto simp: kept_def)
  from assms have l: "- 1 \<le> index u" "nat (index u + 1) \<le> length (stack u)"
    by (auto simp: position_valid_def)
  have p: "(if truthy op \<and> op = Some (lastOp u) then pop u else u) = u"
    using False by (auto simp add: pop_eq)
  show ?thesis using l assms(2)
    unfolding snapshot_def p recorded_def k
    by (simp add: Let_def splice_rest push_def shift_tl getState_def)
qed

lemma snapshot_off: "\<not> recording u \<Longrightarrow> snapshot op u = (False, u)"
  by (simp add: snapshot_def)

lemma undo_eq:
  assumes "position_valid u" "canUndo u"
  shows "undo u = Inr (True,
     u\<lparr>model := setState (stack u ! nat (index u - 1))
                  \<lparr>silenceNotifications = False, type = ''undo''\<rparr> (model u),
       index := index u - 1, lastOp := ''''\<rparr>)"
  using assms by (auto simp: undo_def canUndo_def position_valid_def element_at_def)

lemma redo_eq:
  assumes "position_valid u" "canRedo u"
  shows "redo u = Inr (True,
     u\<lparr>model := setState (stack u ! nat (index u + 1))
                  \<lparr>silenceNotifications = False, type = ''redo''\<rparr> (model u),
       index := index u + 1, lastOp := ''''\<rparr>)"
  using assms by (auto simp: redo_def canRedo_def position_valid_def element_at_def Let_def)

lemma stopCoalescing_eq:
  assumes "position_valid u"
  shows "stopCoalescing sel u = Inr
     (case sel of
        None \<Rightarrow> u\<lparr>lastOp := ''''\<rparr>
      | Some v \<Rightarrow>
          if stack u = [] then u\<lparr>lastOp := ''''\<rparr>
          else u\<lparr>stack := (stack u)[nat (index u) := (stack u ! nat (index u))\<lparr>selection := v\<rparr>],
                 lastOp := ''''\<rparr>)"
  using assms
  by (auto simp: stopCoalescing_def position_valid_def element_at_def split: option.splits)

lemma length_recorded: "position_valid u \<Longrightarrow> length (recorded op u) = kept op u + 1"
  using kept_le [of u op] by (simp add: recorded_def)

lemma position_valid_snapshot:
  assumes "position_valid u"
  shows "position_valid (snd (snapshot op u))"
proof (cases "recording u")
  case False
  then show ?thesis using assms by (simp add: snapshot_off)
next
  case True
  show ?thesis
    using length_recorded [OF assms, of op]
    by (auto simp: snapshot_eq [OF assms True] position_valid_def maximumDepth_def)
qed

lemma position_valid_pop: "position_valid u \<Longrightarrow> position_valid (pop u)"
  by (auto simp: pop_eq position_valid_def canUndo_def)

subsection \<open>The invariants along a history\<close>

lemma apply_call_valid:
  assumes "position_valid u"
  shows "\<exists>u'. apply_call c u = Inr u' \<and> position_valid u'"
proof (cases c)
  case Reset
  then show ?thesis by (simp add: reset_def position_valid_def)
next
  case StartRecording
  then show ?thesis using assms by (simp add: startRecording_def position_valid_def)
next
  case StopRecording
  then show ?thesis using assms by (simp add: stopRecording_def position_valid_def)
next
  case (StopCoalescing sel)
  then show ?thesis using assms
    by (auto simp: stopCoalescing_eq position_valid_def split: option.splits)
next
  case (Snapshot op)
  then show ?thesis using position_valid_snapshot [OF assms] by simp
next
  case Pop
  then show ?thesis using position_valid_pop [OF assms] by simp
next
  case Undo
  show ?thesis
  proof (cases "canUndo u")
    case True
    then show ?thesis using assms Undo
      by (auto simp: undo_eq position_valid_def canUndo_def)
  next
    case False
    then show ?thesis using assms Undo by (simp add: undo_def)
  qed
next
  case Redo
  show ?thesis
  proof (cases "canRedo u")
    case True
    then show ?thesis using assms Redo
      by (auto simp: redo_eq position_valid_def canRedo_def)
  next
    case False
    then show ?thesis using assms Redo by (simp add: redo_def)
  qed
next
  case (HostEdit d)
  then show ?thesis using assms by (simp add: hostEdit_def position_valid_def)
qed

lemma apply_call_Undo:
  assumes "position_valid u"
  shows "apply_call Undo u = Inr
     (if canUndo u
      then u\<lparr>model := setState (stack u ! nat (index u - 1))
                    \<lparr>silenceNotifications = False, type = ''undo''\<rparr> (model u),
             index := index u - 1, lastOp := ''''\<rparr>
      else u)"
proof (cases "canUndo u")
  case True
  then show ?thesis by (simp add: undo_eq [OF assms True])
next
  case False
  then show ?thesis by (simp add: undo_def)
qed

lemma apply_call_Redo:
  assumes "position_valid u"
  shows "apply_call Redo u = Inr
     (if canRedo u
      then u\<lparr>model := setState (stack u ! nat (index u + 1))
                    \<lparr>silenceNotifications = False, type = ''redo''\<rparr> (model u),
             index := index u + 1, lastOp := ''''\<rparr>
      else u)"
proof (cases "canRedo u")
  case True
  then show ?thesis by (simp add: redo_eq [OF assms True])
next
  case False
  then show ?thesis by (simp add: redo_def)
qed

lemma pop_at_newest:
  assumes "position_valid u" "canUndo u"
  shows "index (pop u) = int (length (stack (pop u))) - 1"
proof -
  from assms have "1 \<le> index u" "nat (index u) \<le> length (stack u)"
    by (auto simp: canUndo_def position_valid_def)
  then show ?thesis using assms(2) by (simp add: pop_eq)
qed

lemma apply_call_depth:
  assumes "position_valid u" "depth_bounded u" "apply_call c u = Inr u'"
  shows "depth_bounded u'"
proof (cases c)
  case Reset
  then show ?thesis using assms by (auto simp: reset_def depth_bounded_def)
next
  case StartRecording
  then show ?thesis using assms by (auto simp: startRecording_def depth_bounded_def)
next
  case StopRecording
  then show ?thesis using assms by (auto simp: stopRecording_def depth_bounded_def)
next
  case (StopCoalescing sel)
  then show ?thesis using assms
    by (auto simp: stopCoalescing_eq depth_bounded_def split: option.splits if_splits)
next
  case (Snapshot op)
  show ?thesis
  proof (cases "recording u")
    case True
    show ?thesis
      using assms(2,3) length_recorded [OF assms(1), of op] kept_le [OF assms(1), of op]
      unfolding Snapshot
      by (auto simp: snapshot_eq [OF assms(1) True] depth_bounded_def split: if_splits)
  next
    case False
    then show ?thesis using assms Snapshot by (simp add: snapshot_off)
  qed
next
  case Pop
  then show ?thesis using assms by (auto simp: pop_eq depth_bounded_def)
next
  case Undo
  then have "apply_call Undo u = Inr u'" using assms(3) by simp
  then show ?thesis using assms(2) unfolding apply_call_Undo [OF assms(1)]
    by (auto simp: depth_bounded_def split: if_splits)
next
  case Redo
  then have "apply_call Redo u = Inr u'" using assms(3) by simp
  then show ?thesis using assms(2) unfolding apply_call_Redo [OF assms(1)]
    by (auto simp: depth_bounded_def split: if_splits)
next
  case (HostEdit d)
  then show ?thesis using assms by (auto simp: hostEdit_def depth_bounded_def)
qed

lemma apply_call_tag:
  assumes "position_valid u" "tag_at_newest u" "apply_call c u = Inr u'"
  shows "tag_at_newest u'"
proof (cases c)
  case Reset
  then show ?thesis using assms by (auto simp: reset_def tag_at_newest_def)
next
  case StartRecording
  then show ?thesis using assms by (auto simp: startRecording_def tag_at_newest_def)
next
  case StopRecording
  then show ?thesis using assms by (auto simp: stopRecording_def tag_at_newest_def)
next
  case (StopCoalescing sel)
  then show ?thesis using assms
    by (auto simp: stopCoalescing_eq tag_at_newest_def split: option.splits if_splits)
next
  case (Snapshot op)
  show ?thesis
  proof (cases "recording u")
    case True
    show ?thesis
      using assms(3) length_recorded [OF assms(1), of op] unfolding Snapshot
      by (auto simp: snapshot_eq [OF assms(1) True] tag_at_newest_def split: if_splits)
  next
    case False
    then show ?thesis using assms Snapshot by (simp add: snapshot_off)
  qed
next
  case Pop
  show ?thesis
  proof (cases "canUndo u")
    case True
    then show ?thesis using assms(3) pop_at_newest [OF assms(1) True] Pop
      by (auto simp: tag_at_newest_def)
  next
    case False
    then show ?thesis using assms(2,3) Pop by (simp add: pop_def)
  qed
next
  case Undo
  then have "apply_call Undo u = Inr u'" using assms(3) by simp
  then show ?thesis using assms(2) unfolding apply_call_Undo [OF assms(1)]
    by (auto simp: tag_at_newest_def split: if_splits)
next
  case Redo
  then have "apply_call Redo u = Inr u'" using assms(3) by simp
  then show ?thesis using assms(2) unfolding apply_call_Redo [OF assms(1)]
    by (auto simp: tag_at_newest_def split: if_splits)
next
  case (HostEdit d)
  then show ?thesis using assms by (auto simp: hostEdit_def tag_at_newest_def)
qed

lemma run_invariants:
  assumes "position_valid u" "depth_bounded u" "tag_at_newest u"
  shows "\<exists>u'. run cs u = Inr u' \<and> position_valid u' \<and> depth_bounded u' \<and> tag_at_newest u'"
  using assms
proof (induction cs arbitrary: u)
  case Nil
  then show ?case by simp
next
  case (Cons c cs)
  from apply_call_valid [OF Cons.prems(1), of c]
  obtain u1 where u1: "apply_call c u = Inr u1" "position_valid u1" by blast
  have "depth_bounded u1" using apply_call_depth [OF Cons.prems(1,2) u1(1)] .
  moreover have "tag_at_newest u1" using apply_call_tag [OF Cons.prems(1,3) u1(1)] .
  ultimately show ?case using Cons.IH [of u1] u1 by simp
qed

lemma constructor_invariants:
  "position_valid (constructor m) \<and> depth_bounded (constructor m) \<and> tag_at_newest (constructor m)"
  by (simp add: constructor_def reset_def position_valid_def depth_bounded_def tag_at_newest_def)

lemma reachable_invariants:
  "\<exists>u. run cs (constructor m) = Inr u \<and> position_valid u \<and> depth_bounded u \<and> tag_at_newest u"
  using run_invariants [of "constructor m" cs] constructor_invariants [of m] by simp

lemma reset_invariants:
  "position_valid (reset v) \<and> depth_bounded (reset v) \<and> tag_at_newest (reset v)"
  by (simp add: reset_def position_valid_def depth_bounded_def tag_at_newest_def)

subsection \<open>Depth, index and tag after every history\<close>

lemma run_sample:
  "run [StartRecording, HostEdit (doc 1), Snapshot (Some ''insert'')] fresh =
     Inr \<lparr>model = \<lparr>state = doc 1, transitions = []\<rparr>, recording = True,
          stack = [doc 1], index = 0, lastOp = ''insert''\<rparr>"
  by (simp add: fresh_def constructor_def reset_def startRecording_def hostEdit_def
      snapshot_def truthy_def splice_def push_def getState_def maximumDepth_def Let_def)

text \<open>
  C2. From a freshly constructed object, and from a reset one, every history of calls
  (snapshots while recording among them) runs without an exception and leaves at most
  \<open>maximumDepth\<close> entries on the stack. As this holds for every history, it holds
  after every call of a history.
\<close>

theorem depth_bounded_always:
  "(\<exists>u. run cs (constructor m) = Inr u \<and> length (stack u) \<le> maximumDepth \<and> maximumDepth = 1000) \<and>
   (\<exists>u. run cs (reset v) = Inr u \<and> length (stack u) \<le> maximumDepth)"
proof -
  have "\<exists>u. run cs (constructor m) = Inr u \<and> depth_bounded u"
    using reachable_invariants [of cs m] by blast
  moreover have "\<exists>u. run cs (reset v) = Inr u \<and> depth_bounded u"
    using run_invariants [of "reset v" cs] reset_invariants [of v] by blast
  ultimately show ?thesis by (simp add: depth_bounded_def maximumDepth_def)
qed

theorem depth_bounded_always_witness:
  "(\<exists>u. run [StartRecording, HostEdit (doc 1), Snapshot (Some ''insert'')]
          (constructor \<lparr>state = doc 0, transitions = []\<rparr>) = Inr u \<and>
        length (stack u) \<le> maximumDepth \<and> maximumDepth = 1000) \<and>
   (\<exists>u. run [StartRecording, HostEdit (doc 1), Snapshot (Some ''insert'')] (reset depth3) = Inr u \<and>
        length (stack u) \<le> maximumDepth)"
  using depth_bounded_always
    [of "[StartRecording, HostEdit (doc 1), Snapshot (Some ''insert'')]"
        "\<lparr>state = doc 0, transitions = []\<rparr>" depth3]
  by simp

text \<open>
  C3. After every history of public operations on a constructed object the index lies
  between \<open>-1\<close> and the last position of the stack; it is the position of an element
  whenever the stack is not empty, and it is \<open>-1\<close> only when the stack is empty.
\<close>

theorem position_valid_always:
  "\<exists>u. run cs (constructor m) = Inr u \<and>
       - 1 \<le> index u \<and> index u < int (length (stack u)) \<and>
       (length (stack u) > 0 \<longrightarrow> 0 \<le> index u \<and> index u \<le> int (length (stack u)) - 1) \<and>
       (index u = - 1 \<longrightarrow> stack u = [])"
proof -
  obtain u where "run cs (constructor m) = Inr u" "position_valid u"
    using reachable_invariants [of cs m] by blast
  then show ?thesis by (auto simp: position_valid_def)
qed

theorem position_valid_always_witness:
  "\<exists>u. run [StartRecording, HostEdit (doc 1), Snapshot (Some ''insert'')] fresh = Inr u \<and>
       length (stack u) > 0 \<and> 0 \<le> index u \<and> index u \<le> int (length (stack u)) - 1 \<and>
       index u = 0 \<and> stack u = [doc 1]"
  using position_valid_always
    [of "[StartRecording, HostEdit (doc 1), Snapshot (Some ''insert'')]"
        "\<lparr>state = doc 0, transitions = []\<rparr>", folded fresh_def]
  unfolding run_sample by simp

text \<open>
  C10. After every history of public operations on a constructed object, a non-empty
  tag of the last operation implies that the index is at the newest entry. Hence, while
  a redo branch exists, the test of \<open>snapshot\<close> for coalescing fails for every tag.
\<close>

theorem tag_only_at_newest:
  "\<exists>u. run cs (constructor m) = Inr u \<and>
       (lastOp u \<noteq> '''' \<longrightarrow> index u = int (length (stack u)) - 1) \<and>
       (canRedo u \<longrightarrow> \<not> (truthy op \<and> op = Some (lastOp u)))"
proof -
  obtain u where u: "run cs (constructor m) = Inr u" "tag_at_newest u"
    using reachable_invariants [of cs m] by blast
  then show ?thesis by (auto simp: tag_at_newest_def canRedo_def truthy_def)
qed

theorem tag_only_at_newest_witness:
  "\<exists>u. run [StartRecording, HostEdit (doc 1), Snapshot (Some ''insert'')] fresh = Inr u \<and>
       lastOp u = ''insert'' \<and> lastOp u \<noteq> '''' \<and> index u = int (length (stack u)) - 1 \<and>
       \<not> canRedo u"
  using tag_only_at_newest
    [of "[StartRecording, HostEdit (doc 1), Snapshot (Some ''insert'')]"
        "\<lparr>state = doc 0, transitions = []\<rparr>" "Some ''insert''", folded fresh_def]
  unfolding run_sample by (simp add: canRedo_def)

subsection \<open>Undo and redo\<close>

lemma position_valid_depth3: "position_valid depth3"
  by (simp add: position_valid_def depth3_def)

lemma position_valid_fresh: "position_valid fresh"
  by (simp add: position_valid_def fresh_def constructor_def reset_def)

text \<open>
  C6. In every state that the class can reach (the index is valid), \<open>undo\<close> returns
  false and changes nothing when \<open>canUndo\<close> is false, that is when
  \<open>index - 1 < 0\<close>. Otherwise it returns true: the model is set to the snapshot at
  \<open>index - 1\<close>, with the transition type \<open>undo\<close>; the index is one less; the tag is
  empty; the stack and the recording flag are as before.
\<close>

theorem undo_contract:
  assumes "position_valid u"
  shows "canUndo u = (\<not> index u - 1 < 0) \<and>
    (\<not> canUndo u \<longrightarrow> undo u = Inr (False, u)) \<and>
    (canUndo u \<longrightarrow>
       (\<exists>u'. undo u = Inr (True, u') \<and>
          getState (model u') = stack u ! nat (index u - 1) \<and>
          transitions (model u') =
            transitions (model u) @ [\<lparr>silenceNotifications = False, type = ''undo''\<rparr>] \<and>
          index u' = index u - 1 \<and>
          lastOp u' = '''' \<and>
          stack u' = stack u \<and>
          recording u' = recording u))"
proof (cases "canUndo u")
  case True
  then show ?thesis
    by (simp add: undo_eq [OF assms True] getState_def setState_def canUndo_def not_less)
next
  case False
  then show ?thesis by (simp add: undo_def canUndo_def not_less)
qed

theorem undo_contract_witness:
  "undo fresh = Inr (False, fresh) \<and> \<not> canUndo fresh \<and> canUndo depth3 \<and>
   (\<exists>u'. undo depth3 = Inr (True, u') \<and>
      getState (model u') = doc 2 \<and>
      transitions (model u') = [\<lparr>silenceNotifications = False, type = ''undo''\<rparr>] \<and>
      index u' = 1 \<and> lastOp u' = '''' \<and> stack u' = [doc 1, doc 2, doc 3] \<and> recording u')"
proof -
  have f: "\<not> canUndo fresh"
    by (simp add: canUndo_def fresh_def constructor_def reset_def)
  have d: "canUndo depth3"
    by (simp add: canUndo_def depth3_def)
  have s: "stack depth3 = [doc 1, doc 2, doc 3]" "index depth3 = 2" "recording depth3"
    "transitions (model depth3) = []"
    by (simp_all add: depth3_def)
  show ?thesis
    using undo_contract [OF position_valid_fresh] undo_contract [OF position_valid_depth3] f d
    by (simp add: s)
qed

lemma snapshot_newest:
  assumes "position_valid u" "recording u" "snapshot op u = (b, u1)"
  shows "b \<and> index u1 = int (length (stack u1)) - 1 \<and> stack u1 \<noteq> [] \<and>
    last (stack u1) = state (model u) \<and> model u1 = model u \<and> recording u1"
proof (cases "length (recorded op u) > maximumDepth")
  case False
  then show ?thesis
    using assms(2,3) length_recorded [OF assms(1), of op] unfolding snapshot_eq [OF assms(1,2)]
    by (auto simp: recorded_def)
next
  case True
  then have "1 \<le> kept op u"
    using length_recorded [OF assms(1), of op] by (simp add: maximumDepth_def)
  with kept_le [OF assms(1), of op] obtain a x where ax: "take (kept op u) (stack u) = a # x"
    by (cases "take (kept op u) (stack u)") auto
  then have "length (a # x) = kept op u"
    using kept_le [OF assms(1), of op] by (metis length_take min.absorb2)
  then have "int (length x) = int (kept op u) - 1" by auto
  then show ?thesis
    using True assms(2,3) unfolding snapshot_eq [OF assms(1,2)]
    by (auto simp: recorded_def ax)
qed

text \<open>
  C7. In every reachable state with recording enabled, \<open>snapshot\<close> succeeds, and
  \<open>undo\<close> followed by \<open>redo\<close> then both return without an exception and leave
  the state of the model (what \<open>getState\<close> returns) as it was right after the
  snapshot. The stack and the index are restored as well.
\<close>

theorem snapshot_undo_redo:
  assumes "position_valid u" "recording u"
  shows "\<exists>u1 b u2 u3.
     snapshot op u = (True, u1) \<and> undo u1 = Inr (b, u2) \<and> redo u2 = Inr (b, u3) \<and>
     getState (model u3) = getState (model u1) \<and>
     stack u3 = stack u1 \<and> index u3 = index u1"
proof -
  obtain u1 where u1: "snapshot op u = (True, u1)"
    using snapshot_eq [OF assms, of op] by simp
  then have "u1 = snd (snapshot op u)" by simp
  then have v1: "position_valid u1"
    using position_valid_snapshot [OF assms(1), of op] by simp
  have top: "index u1 = int (length (stack u1)) - 1"
    using snapshot_newest [OF assms u1] by simp
  have "last (stack u1) = getState (model u1)" "stack u1 \<noteq> []"
    using snapshot_newest [OF assms u1] by (simp_all add: getState_def)
  moreover have "nat (index u1) = length (stack u1) - 1"
    using top by simp
  ultimately have cur: "stack u1 ! nat (index u1) = getState (model u1)"
    by (simp add: last_conv_nth)
  show ?thesis
  proof (cases "canUndo u1")
    case True
    define u2 where "u2 = u1\<lparr>model := setState (stack u1 ! nat (index u1 - 1))
         \<lparr>silenceNotifications = False, type = ''undo''\<rparr> (model u1),
       index := index u1 - 1, lastOp := ''''\<rparr>"
    have un: "undo u1 = Inr (True, u2)"
      by (simp add: undo_eq [OF v1 True] u2_def)
    have v2: "position_valid u2"
      using v1 True by (auto simp: u2_def position_valid_def canUndo_def)
    have c2: "canRedo u2"
      using top by (simp add: u2_def canRedo_def)
    have i: "1 \<le> index u1" using True by (simp add: canUndo_def)
    have re: "\<exists>u3. redo u2 = Inr (True, u3) \<and> getState (model u3) = getState (model u1) \<and>
        stack u3 = stack u1 \<and> index u3 = index u1"
      using cur i unfolding redo_eq [OF v2 c2]
      by (simp add: u2_def getState_def setState_def)
    with u1 un show ?thesis by blast
  next
    case False
    have un: "undo u1 = Inr (False, u1)" using False by (simp add: undo_def)
    have "\<not> canRedo u1" using top by (simp add: canRedo_def)
    then have "redo u1 = Inr (False, u1)" by (simp add: redo_def)
    with u1 un show ?thesis by blast
  qed
qed

theorem snapshot_undo_redo_witness:
  "\<exists>u1 u2 u3.
     snapshot (Some ''insert'') (hostEdit (doc 4) depth3) = (True, u1) \<and>
     undo u1 = Inr (True, u2) \<and> redo u2 = Inr (True, u3) \<and>
     getState (model u1) = doc 4 \<and> getState (model u2) = doc 3 \<and>
     getState (model u3) = doc 4"
proof -
  let ?w1 = "\<lparr>model = \<lparr>state = doc 4, transitions = []\<rparr>, recording = True,
             stack = [doc 1, doc 2, doc 3, doc 4], index = 3, lastOp = ''insert''\<rparr>"
  let ?w2 = "\<lparr>model = \<lparr>state = doc 3,
                     transitions = [\<lparr>silenceNotifications = False, type = ''undo''\<rparr>]\<rparr>,
             recording = True, stack = [doc 1, doc 2, doc 3, doc 4], index = 2, lastOp = ''''\<rparr>"
  have v: "position_valid (hostEdit (doc 4) depth3)" "recording (hostEdit (doc 4) depth3)"
    by (simp_all add: position_valid_def depth3_def hostEdit_def)
  have s: "snapshot (Some ''insert'') (hostEdit (doc 4) depth3) = (True, ?w1)"
    by (simp add: snapshot_def depth3_def hostEdit_def truthy_def splice_def push_def
        getState_def maximumDepth_def Let_def)
  have n: "undo ?w1 = Inr (True, ?w2)"
    by (simp add: undo_def canUndo_def element_at_def setState_def)
  from snapshot_undo_redo [OF v, of "Some ''insert''"] obtain u1 b u2 u3 where
    h: "snapshot (Some ''insert'') (hostEdit (doc 4) depth3) = (True, u1)"
      "undo u1 = Inr (b, u2)" "redo u2 = Inr (b, u3)"
      "getState (model u3) = getState (model u1)"
    by blast
  from h(1) have u1: "u1 = ?w1" unfolding s by simp
  from h(2) have u2: "b" "u2 = ?w2" unfolding u1 n by simp_all
  have "getState (model u1) = doc 4" "getState (model u2) = doc 3"
    by (simp_all add: u1 u2 getState_def)
  with h u2(1) show ?thesis by auto
qed

subsection \<open>The coalescing boundary\<close>

text \<open>
  C9. In every reachable state \<open>stopCoalescing\<close> returns without an exception and
  clears the tag. The stack keeps its length; the index, the recording flag and the
  model are as before; every snapshot other than the current one is unchanged. Without
  a selection the stack is unchanged; with a selection and a non-empty stack, the
  current snapshot is the old one with the new selection.
\<close>

theorem stopCoalescing_contract:
  assumes "position_valid u"
  shows "\<exists>u'. stopCoalescing sel u = Inr u' \<and>
     lastOp u' = '''' \<and>
     length (stack u') = length (stack u) \<and>
     index u' = index u \<and>
     recording u' = recording u \<and>
     model u' = model u \<and>
     (\<forall>i. i < length (stack u) \<and> int i \<noteq> index u \<longrightarrow> stack u' ! i = stack u ! i) \<and>
     (sel = None \<longrightarrow> stack u' = stack u) \<and>
     (\<forall>v. sel = Some v \<and> stack u \<noteq> [] \<longrightarrow>
        stack u' ! nat (index u) = (stack u ! nat (index u))\<lparr>selection := v\<rparr>)"
proof (cases sel)
  case None
  then show ?thesis by (simp add: stopCoalescing_def)
next
  case (Some v)
  show ?thesis
  proof (cases "stack u = []")
    case True
    then show ?thesis using Some by (simp add: stopCoalescing_eq [OF assms])
  next
    case False
    with assms have "0 \<le> index u" "nat (index u) < length (stack u)"
      by (auto simp: position_valid_def)
    then show ?thesis using Some False
      by (auto simp: stopCoalescing_eq [OF assms] nth_list_update)
  qed
qed

theorem stopCoalescing_contract_witness:
  "stopCoalescing (Some 7) typing =
     Inr (typing\<lparr>stack := [doc 1, \<lparr>content = 2, selection = 7\<rparr>], lastOp := ''''\<rparr>) \<and>
   stopCoalescing None typing = Inr (typing\<lparr>lastOp := ''''\<rparr>) \<and>
   stopCoalescing (Some 7) fresh = Inr fresh"
proof -
  have v: "position_valid typing" by (simp add: position_valid_def typing_def)
  from stopCoalescing_contract [OF v, of "Some 7"]
  obtain u' where u': "stopCoalescing (Some 7) typing = Inr u'" by blast
  then have "u' = typing\<lparr>stack := [doc 1, \<lparr>content = 2, selection = 7\<rparr>], lastOp := ''''\<rparr>"
    by (simp add: stopCoalescing_def typing_def element_at_def doc_def)
  with u' have a: "stopCoalescing (Some 7) typing =
     Inr (typing\<lparr>stack := [doc 1, \<lparr>content = 2, selection = 7\<rparr>], lastOp := ''''\<rparr>)" by simp
  have b: "stopCoalescing None typing = Inr (typing\<lparr>lastOp := ''''\<rparr>)"
    by (simp add: stopCoalescing_def)
  have c: "stopCoalescing (Some 7) fresh = Inr fresh"
    by (simp add: stopCoalescing_def fresh_def constructor_def reset_def)
  from a b c show ?thesis by simp
qed

subsection \<open>The fields after a snapshot\<close>

lemma snapshot_fields:
  assumes "position_valid u" "recording u"
  shows "stack (snd (snapshot op u)) =
      (if length (recorded op u) > maximumDepth then tl (recorded op u) else recorded op u)"
    and "index (snd (snapshot op u)) =
      (if length (recorded op u) > maximumDepth then int (kept op u) - 1 else int (kept op u))"
    and "lastOp (snd (snapshot op u)) = (case op of None \<Rightarrow> '''' | Some t \<Rightarrow> t)"
    and "model (snd (snapshot op u)) = model u"
    and "recording (snd (snapshot op u))"
  using assms(2) by (simp_all add: snapshot_eq [OF assms])

lemma snapshot_recording: "snapshot op u = (True, u') \<Longrightarrow> recording u"
  by (cases "recording u") (simp_all add: snapshot_off)

lemma kept_le_index: "position_valid u \<Longrightarrow> kept op u \<le> nat (index u + 1)"
  by (auto simp: kept_def position_valid_def)

lemma hostEdit_fields:
  "stack (hostEdit d u) = stack u" "index (hostEdit d u) = index u"
  "lastOp (hostEdit d u) = lastOp u" "recording (hostEdit d u) = recording u"
  "state (model (hostEdit d u)) = d"
  by (simp_all add: hostEdit_def)

lemma hostEdit_invariants:
  "position_valid (hostEdit d u) = position_valid u"
  "depth_bounded (hostEdit d u) = depth_bounded u"
  "canUndo (hostEdit d u) = canUndo u"
  by (simp_all add: hostEdit_def position_valid_def depth_bounded_def canUndo_def)

lemma depth_bounded_snapshot:
  "position_valid u \<Longrightarrow> depth_bounded u \<Longrightarrow> depth_bounded (snd (snapshot op u))"
  using apply_call_depth [of u "Snapshot op"] by simp

text \<open>
  C5. In every reachable state, a call of \<open>snapshot\<close> that returns true leaves a stack
  made of entries at or before the old index (the first \<open>k\<close> entries, with
  \<open>k \<le> index + 1\<close>), followed by the state just captured, less the oldest entry when
  the depth was exceeded: no entry after the old index survives. \<open>canRedo\<close> is false
  afterwards and \<open>redo\<close> returns false and changes nothing.
\<close>

theorem snapshot_drops_redo_branch:
  assumes "position_valid u" "snapshot op u = (True, u')"
  shows "\<not> canRedo u' \<and> redo u' = Inr (False, u') \<and>
    (\<exists>k e. k \<le> nat (index u + 1) \<and> e \<le> 1 \<and>
       stack u' = drop e (take k (stack u) @ [getState (model u)]))"
proof -
  have r: "recording u" using assms(2) by (rule snapshot_recording)
  have u': "u' = snd (snapshot op u)" using assms(2) by simp
  have "index u' = int (length (stack u')) - 1"
    using snapshot_newest [OF assms(1) r assms(2)] by simp
  then have c: "\<not> canRedo u'" by (simp add: canRedo_def)
  then have d: "redo u' = Inr (False, u')" by (simp add: redo_def)
  have "stack u' = drop (if length (recorded op u) > maximumDepth then 1 else 0) (recorded op u)"
    unfolding u' snapshot_fields(1) [OF assms(1) r] by (simp add: drop_Suc)
  then have "stack u' = drop (if length (recorded op u) > maximumDepth then 1 else 0)
      (take (kept op u) (stack u) @ [getState (model u)])"
    unfolding recorded_def getState_def .
  then have "\<exists>k e. k \<le> nat (index u + 1) \<and> e \<le> 1 \<and>
       stack u' = drop e (take k (stack u) @ [getState (model u)])"
    using kept_le_index [OF assms(1), of op]
    by (intro exI [of _ "kept op u"]
        exI [of _ "if length (recorded op u) > maximumDepth then 1 else 0"]) simp
  with c d show ?thesis by simp
qed

theorem snapshot_drops_redo_branch_witness:
  "undo depth3 = Inr (True, depth3_undone) \<and> index depth3_undone = 1 \<and> canRedo depth3_undone \<and>
   (\<exists>u'. snapshot (Some ''x'') (hostEdit (doc 4) depth3_undone) = (True, u') \<and>
      stack u' = [doc 1, doc 2, doc 4] \<and> \<not> canRedo u' \<and> redo u' = Inr (False, u'))"
proof -
  let ?w = "\<lparr>model = \<lparr>state = doc 4,
                     transitions = [\<lparr>silenceNotifications = False, type = ''undo''\<rparr>]\<rparr>,
             recording = True, stack = [doc 1, doc 2, doc 4], index = 2, lastOp = ''x''\<rparr>"
  have a: "undo depth3 = Inr (True, depth3_undone)"
    by (simp add: undo_def canUndo_def element_at_def setState_def depth3_def depth3_undone_def)
  have b: "index depth3_undone = 1" "canRedo depth3_undone"
    by (simp_all add: canRedo_def depth3_undone_def)
  have v: "position_valid (hostEdit (doc 4) depth3_undone)"
    by (simp add: position_valid_def depth3_undone_def hostEdit_def)
  have s: "snapshot (Some ''x'') (hostEdit (doc 4) depth3_undone) = (True, ?w)"
    by (simp add: snapshot_def depth3_undone_def hostEdit_def truthy_def splice_def push_def
        getState_def maximumDepth_def Let_def)
  from snapshot_drops_redo_branch [OF v s]
  have "\<not> canRedo ?w \<and> redo ?w = Inr (False, ?w)" by blast
  with a b s show ?thesis by simp
qed

subsection \<open>Recording a series of edits\<close>

lemma noncoalescing_untagged: "noncoalescing t (map (\<lambda>k. None) ks)"
  by (induction ks arbitrary: t) (simp_all add: truthy_def)

lemma record_all_newest:
  assumes "position_valid u" "recording u" "depth_bounded u"
    "index u = int (length (stack u)) - 1" "noncoalescing (lastOp u) (map snd xs)"
  shows "stack (record_all xs u) =
      drop (length (stack u) + length xs - maximumDepth) (stack u @ map fst xs) \<and>
    index (record_all xs u) = int (length (stack (record_all xs u))) - 1"
  using assms
proof (induction xs arbitrary: u)
  case Nil
  then show ?case by (simp add: depth_bounded_def)
next
  case (Cons x xs)
  obtain d op where x: "x = (d, op)" by (cases x)
  let ?h = "hostEdit d u"
  let ?u = "snd (snapshot op ?h)"
  have vh: "position_valid ?h" "recording ?h" "depth_bounded ?h"
    using Cons.prems(1-3) by (simp_all add: hostEdit_invariants hostEdit_fields)
  have nc: "\<not> (truthy op \<and> op = Some (lastOp u))"
    and rest: "noncoalescing (case op of None \<Rightarrow> '''' | Some t \<Rightarrow> t) (map snd xs)"
    using Cons.prems(5) by (simp_all add: x)
  have k: "kept op ?h = length (stack u)"
    using nc Cons.prems(4) by (auto simp: kept_def hostEdit_fields)
  have rc: "recorded op ?h = stack u @ [d]"
    by (simp add: recorded_def k hostEdit_fields)
  have st: "stack ?u = (if length (stack u) + 1 > maximumDepth then tl (stack u @ [d])
      else stack u @ [d])"
    unfolding snapshot_fields(1) [OF vh(1,2)] rc by simp
  have v': "position_valid ?u" using position_valid_snapshot [OF vh(1)] .
  have r': "recording ?u" using snapshot_fields(5) [OF vh(1,2)] .
  have d': "depth_bounded ?u" using depth_bounded_snapshot [OF vh(1,3)] .
  have i': "index ?u = int (length (stack ?u)) - 1"
    using snapshot_newest [OF vh(1,2), of op True ?u] snapshot_eq [OF vh(1,2), of op] by simp
  have n': "noncoalescing (lastOp ?u) (map snd xs)"
    using rest unfolding snapshot_fields(3) [OF vh(1,2)] .
  have ih: "stack (record_all xs ?u) =
      drop (length (stack ?u) + length xs - maximumDepth) (stack ?u @ map fst xs) \<and>
    index (record_all xs ?u) = int (length (stack (record_all xs ?u))) - 1"
    using Cons.IH [OF v' r' d' i' n'] .
  have le: "length (stack u) \<le> maximumDepth"
    using Cons.prems(3) by (simp add: depth_bounded_def)
  have "drop (length (stack ?u) + length xs - maximumDepth) (stack ?u @ map fst xs) =
      drop (length (stack u) + length (x # xs) - maximumDepth) (stack u @ map fst (x # xs))"
  proof (cases "length (stack u) + 1 > maximumDepth")
    case True
    with le have e: "length (stack u) = maximumDepth" by simp
    define ys where "ys = stack u @ map fst (x # xs)"
    have "stack ?u @ map fst xs = tl ys"
      using True by (cases "stack u") (simp_all add: st ys_def x)
    moreover have "length (stack ?u) = maximumDepth"
      using True e by (simp add: st)
    ultimately have "drop (length (stack ?u) + length xs - maximumDepth) (stack ?u @ map fst xs) =
        drop (length xs) (tl ys)"
      by simp
    also have "\<dots> = drop (Suc (length xs)) ys"
      by (simp add: drop_Suc)
    also have "\<dots> = drop (length (stack u) + length (x # xs) - maximumDepth) ys"
      by (simp add: e)
    finally show ?thesis unfolding ys_def .
  next
    case False
    then show ?thesis by (simp add: st x)
  qed
  with ih show ?case by (simp add: x)
qed

text \<open>
  C4. Starting from an empty stack with recording enabled, a series of
  \<open>maximumDepth + 5\<close> edits, each recorded by a snapshot that does not coalesce,
  leaves the stack with \<open>maximumDepth\<close> entries: the recorded documents without the
  five oldest, in order. The index is \<open>maximumDepth - 1\<close>, and the entry there is the
  document recorded last.
\<close>

theorem eviction_after_overflow:
  assumes "stack u = []" "index u = - 1" "recording u"
    "length xs = maximumDepth + 5" "noncoalescing (lastOp u) (map snd xs)"
  shows "stack (record_all xs u) = drop 5 (map fst xs) \<and>
    length (stack (record_all xs u)) = maximumDepth \<and>
    index (record_all xs u) = int maximumDepth - 1 \<and>
    stack (record_all xs u) ! nat (index (record_all xs u)) = fst (last xs) \<and>
    maximumDepth = 1000"
proof -
  have v: "position_valid u" "depth_bounded u" "index u = int (length (stack u)) - 1"
    using assms(1,2) by (simp_all add: position_valid_def depth_bounded_def)
  have s: "stack (record_all xs u) = drop 5 (map fst xs)"
    and i: "index (record_all xs u) = int (length (stack (record_all xs u))) - 1"
    using record_all_newest [OF v(1) assms(3) v(2,3) assms(5)] assms(1,4) by simp_all
  have l: "length (stack (record_all xs u)) = maximumDepth"
    using assms(4) by (simp add: s)
  have ne: "xs \<noteq> []" "drop 5 (map fst xs) \<noteq> []"
    using assms(4) by (auto simp: maximumDepth_def)
  have "nat (int maximumDepth - 1) = maximumDepth - 1"
    by (simp add: maximumDepth_def)
  then have "stack (record_all xs u) ! nat (index (record_all xs u)) =
      last (stack (record_all xs u))"
    using ne(2) l by (simp add: i s [symmetric] last_conv_nth)
  then have "stack (record_all xs u) ! nat (index (record_all xs u)) = last (drop 5 (map fst xs))"
    by (simp only: s)
  also have "\<dots> = fst (last xs)"
    using ne assms(4) by (simp add: last_map maximumDepth_def)
  finally show ?thesis using s i l by (simp add: maximumDepth_def)
qed

theorem eviction_after_overflow_witness:
  "length (edits 1005) = maximumDepth + 5 \<and>
   stack (record_all (edits 1005) (startRecording fresh)) = map doc [5..<1005] \<and>
   length (stack (record_all (edits 1005) (startRecording fresh))) = 1000 \<and>
   index (record_all (edits 1005) (startRecording fresh)) = 999 \<and>
   stack (record_all (edits 1005) (startRecording fresh)) ! 999 = doc 1004"
proof -
  have f: "stack (startRecording fresh) = []" "index (startRecording fresh) = - 1"
    "recording (startRecording fresh)" "lastOp (startRecording fresh) = ''''"
    by (simp_all add: startRecording_def fresh_def constructor_def reset_def)
  have l: "length (edits 1005) = maximumDepth + 5"
    by (simp add: edits_def maximumDepth_def)
  have n: "noncoalescing (lastOp (startRecording fresh)) (map snd (edits 1005))"
    using noncoalescing_untagged [of "''''" "[0..<1005]"] by (simp add: edits_def f(4) comp_def)
  have d: "drop 5 (map fst (edits 1005)) = map doc [5..<1005]"
    by (simp add: edits_def drop_map comp_def)
  have e: "fst (last (edits 1005)) = doc 1004"
    by (simp add: edits_def last_map)
  show ?thesis
    using eviction_after_overflow [OF f(1-3) l n] l unfolding d e
    by (simp add: maximumDepth_def)
qed

subsection \<open>Two snapshots with the same tag\<close>

lemma butlast_take_length: "take (length xs - Suc 0) xs = butlast xs"
  by (simp add: butlast_conv_take)

lemma second_snapshot:
  assumes "position_valid u1" "depth_bounded u1" "recording u1" "t \<noteq> ''''"
    "lastOp u1 = t" "index u1 = int (length (stack u1)) - 1" "stack u1 \<noteq> []"
    and "u2 = snd (snapshot (Some t) (hostEdit d u1))"
  shows "canUndo u1 \<Longrightarrow> stack u2 = butlast (stack u1) @ [d] \<and> index u2 = index u1"
    and "\<not> canUndo u1 \<Longrightarrow> stack u2 = stack u1 @ [d] \<and> index u2 = index u1 + 1"
proof -
  let ?h = "hostEdit d u1"
  have vh: "position_valid ?h" "recording ?h"
    using assms(1,3) by (simp_all add: hostEdit_invariants hostEdit_fields)
  have le: "length (stack u1) \<le> maximumDepth"
    using assms(2) by (simp add: depth_bounded_def)
  have tr: "truthy (Some t)" using assms(4) by (simp add: truthy_def)
  {
    assume c: "canUndo u1"
    have k: "kept (Some t) ?h = length (stack u1) - 1"
      using c tr assms(5,6) by (simp add: kept_def hostEdit_fields hostEdit_invariants)
    have rc: "recorded (Some t) ?h = butlast (stack u1) @ [d]"
      by (simp add: recorded_def k hostEdit_fields butlast_take_length)
    have "length (recorded (Some t) ?h) \<le> maximumDepth"
      using le assms(7) by (simp add: rc)
    then have n: "\<not> length (recorded (Some t) ?h) > maximumDepth" by simp
    have "int (length (stack u1) - 1) = index u1"
      using assms(6,7) by (cases "stack u1") simp_all
    then show "stack u2 = butlast (stack u1) @ [d] \<and> index u2 = index u1"
      unfolding assms(8) snapshot_fields(1,2) [OF vh] using n by (simp add: rc k)
  }
  {
    assume c: "\<not> canUndo u1"
    then have one: "length (stack u1) = 1"
      using assms(6,7) by (cases "stack u1") (auto simp: canUndo_def)
    have k: "kept (Some t) ?h = length (stack u1)"
      using c assms(6) one by (simp add: kept_def hostEdit_fields hostEdit_invariants)
    have rc: "recorded (Some t) ?h = stack u1 @ [d]"
      by (simp add: recorded_def k hostEdit_fields)
    have n: "\<not> length (recorded (Some t) ?h) > maximumDepth"
      by (simp add: rc one maximumDepth_def)
    show "stack u2 = stack u1 @ [d] \<and> index u2 = index u1 + 1"
      unfolding assms(8) snapshot_fields(1,2) [OF vh] using n assms(6) by (simp add: rc k)
  }
qed

lemma first_snapshot:
  assumes "position_valid u" "recording u" "stack u \<noteq> []" "\<not> canRedo u"
    "length (stack u) < maximumDepth" "lastOp u \<noteq> t"
  shows "stack (snd (snapshot (Some t) u)) = stack u @ [state (model u)]"
    and "index (snd (snapshot (Some t) u)) = index u + 1"
    and "canUndo (snd (snapshot (Some t) u))"
proof -
  have i: "index u = int (length (stack u)) - 1" "0 \<le> index u"
    using assms(1,3,4) by (auto simp: position_valid_def canRedo_def)
  have k: "kept (Some t) u = length (stack u)"
    using assms(6) i by (auto simp: kept_def)
  have rc: "recorded (Some t) u = stack u @ [state (model u)]"
    by (simp add: recorded_def k)
  have n: "\<not> length (recorded (Some t) u) > maximumDepth"
    using assms(5) by (simp add: rc)
  show s: "stack (snd (snapshot (Some t) u)) = stack u @ [state (model u)]"
    unfolding snapshot_fields(1) [OF assms(1,2)] using n by (simp add: rc)
  show j: "index (snd (snapshot (Some t) u)) = index u + 1"
    unfolding snapshot_fields(2) [OF assms(1,2)] using n i by (simp add: k)
  show "canUndo (snd (snapshot (Some t) u))"
    using i(2) by (simp add: canUndo_def j)
qed

text \<open>
  C1, as amended. Let \<open>snapshot(t)\<close> be called twice with the same non-empty tag
  (\<open>insert\<close>, say) in a reachable state with recording enabled, the host editing the
  document to \<open>d\<close> in between and \<open>stopCoalescing\<close> not being called. If the first call
  leaves an undo target, the second adds no entry: it replaces the entry that the
  first call pushed by the state \<open>d\<close> captured by the second. If the first call leaves a
  single entry, \<open>pop\<close> does nothing and the second call pushes a second entry. When the
  stack before the first call is non-empty, at its newest entry and below
  \<open>maximumDepth\<close>, and the tag before was another one, the two calls together grow the
  stack by exactly one entry, which holds the state captured by the second call.
\<close>

theorem snapshot_coalescing:
  assumes "position_valid u" "depth_bounded u" "recording u" "t \<noteq> ''''"
    and "u1 = snd (snapshot (Some t) u)"
    and "u2 = snd (snapshot (Some t) (hostEdit d u1))"
  shows "(canUndo u1 \<longrightarrow>
       stack u2 = butlast (stack u1) @ [d] \<and> length (stack u2) = length (stack u1) \<and>
       index u2 = index u1) \<and>
    (\<not> canUndo u1 \<longrightarrow> stack u2 = stack u1 @ [d]) \<and>
    (stack u \<noteq> [] \<and> \<not> canRedo u \<and> length (stack u) < maximumDepth \<and> lastOp u \<noteq> t \<longrightarrow>
       stack u2 = stack u @ [d] \<and> length (stack u2) = length (stack u) + 1 \<and>
       index u2 = index u + 1)"
proof -
  have s1: "snapshot (Some t) u = (True, u1)"
    using snapshot_eq [OF assms(1,3), of "Some t"] assms(5) by simp
  have v1: "position_valid u1"
    unfolding assms(5) using position_valid_snapshot [OF assms(1)] .
  have d1: "depth_bounded u1"
    unfolding assms(5) using depth_bounded_snapshot [OF assms(1,2)] .
  have n1: "recording u1" "index u1 = int (length (stack u1)) - 1" "stack u1 \<noteq> []"
    using snapshot_newest [OF assms(1,3) s1] by simp_all
  have t1: "lastOp u1 = t"
    unfolding assms(5) snapshot_fields(3) [OF assms(1,3)] by simp
  note second = second_snapshot [OF v1 d1 n1(1) assms(4) t1 n1(2,3) assms(6)]
  have a: "canUndo u1 \<longrightarrow>
       stack u2 = butlast (stack u1) @ [d] \<and> length (stack u2) = length (stack u1) \<and>
       index u2 = index u1"
    using second(1) n1(3) by (cases "stack u1" rule: rev_cases) auto
  have b: "\<not> canUndo u1 \<longrightarrow> stack u2 = stack u1 @ [d]"
    using second(2) by simp
  have c: "stack u2 = stack u @ [d] \<and> length (stack u2) = length (stack u) + 1 \<and>
       index u2 = index u + 1"
    if h: "stack u \<noteq> []" "\<not> canRedo u" "length (stack u) < maximumDepth" "lastOp u \<noteq> t"
  proof -
    note first = first_snapshot [OF assms(1,3) h, folded assms(5)]
    have "stack u2 = butlast (stack u1) @ [d] \<and> index u2 = index u1"
      using second(1) first(3) by simp
    then show ?thesis by (simp add: first(1,2))
  qed
  from a b c show ?thesis by blast
qed

theorem snapshot_coalescing_witness:
  "stack (hostEdit (doc 4) depth3) = [doc 1, doc 2, doc 3] \<and>
   stack (snd (snapshot (Some ''insert'') (hostEdit (doc 4) depth3))) =
     [doc 1, doc 2, doc 3, doc 4] \<and>
   stack (snd (snapshot (Some ''insert'')
     (hostEdit (doc 5) (snd (snapshot (Some ''insert'') (hostEdit (doc 4) depth3)))))) =
     [doc 1, doc 2, doc 3, doc 5]"
proof -
  let ?u = "hostEdit (doc 4) depth3"
  have v: "position_valid ?u" "depth_bounded ?u" "recording ?u"
    by (simp_all add: position_valid_def depth_bounded_def depth3_def hostEdit_def
        maximumDepth_def)
  have h: "stack ?u \<noteq> []" "\<not> canRedo ?u" "length (stack ?u) < maximumDepth"
    "lastOp ?u \<noteq> ''insert''" "stack ?u = [doc 1, doc 2, doc 3]"
    by (simp_all add: canRedo_def depth3_def hostEdit_def maximumDepth_def)
  have s: "stack (snd (snapshot (Some ''insert'') ?u)) = [doc 1, doc 2, doc 3, doc 4]"
    by (simp add: snapshot_def depth3_def hostEdit_def truthy_def splice_def push_def
        getState_def maximumDepth_def Let_def)
  have "''insert'' \<noteq> ''''" by simp
  from snapshot_coalescing [OF v this refl refl, of "doc 5"] h s
  show ?thesis by simp
qed

text \<open>
  The claim as it is written fails on a fresh object: the first snapshot has no undo
  target, so the second one with the same tag is pushed beside it and the stack grows
  by two.
\<close>

theorem snapshot_coalescing_counterexample:
  "recording (startRecording fresh) \<and> stack (startRecording fresh) = [] \<and>
   stack (snd (snapshot (Some ''insert'')
     (hostEdit (doc 2) (snd (snapshot (Some ''insert'')
       (hostEdit (doc 1) (startRecording fresh))))))) = [doc 1, doc 2] \<and>
   length (stack (snd (snapshot (Some ''insert'')
     (hostEdit (doc 2) (snd (snapshot (Some ''insert'')
       (hostEdit (doc 1) (startRecording fresh)))))))) \<noteq>
     length (stack (startRecording fresh)) + 1"
proof -
  have a: "snd (snapshot (Some ''insert'') (hostEdit (doc 1) (startRecording fresh))) =
      \<lparr>model = \<lparr>state = doc 1, transitions = []\<rparr>, recording = True,
       stack = [doc 1], index = 0, lastOp = ''insert''\<rparr>"
    by (simp add: fresh_def constructor_def reset_def startRecording_def hostEdit_def
        snapshot_def truthy_def splice_def push_def getState_def maximumDepth_def Let_def)
  have b: "stack (snd (snapshot (Some ''insert'') (hostEdit (doc 2)
      \<lparr>model = \<lparr>state = doc 1, transitions = []\<rparr>, recording = True,
       stack = [doc 1], index = 0, lastOp = ''insert''\<rparr>))) = [doc 1, doc 2]"
    by (simp add: hostEdit_def snapshot_def truthy_def pop_def canUndo_def splice_def push_def
        getState_def maximumDepth_def Let_def)
  have c: "recording (startRecording fresh)" "stack (startRecording fresh) = []"
    by (simp_all add: fresh_def constructor_def reset_def startRecording_def)
  show ?thesis unfolding a b using c by simp
qed

text \<open>
  The other conditions of the statement proved for C1 are needed as well. When the tag
  before the first call is already the same, both calls replace the newest entry; when
  a redo branch exists, the first call removes it; on a full stack the first call
  evicts the oldest entry. In each case the stack does not grow by one.
\<close>

lemma coalescing_after_same_tag:
  "stack typing = [doc 1, doc 2] \<and>
   stack (snd (snapshot (Some ''insert'')
     (hostEdit (doc 4) (snd (snapshot (Some ''insert'') (hostEdit (doc 3) typing)))))) =
     [doc 1, doc 4]"
proof -
  have a: "snd (snapshot (Some ''insert'') (hostEdit (doc 3) typing)) =
      \<lparr>model = \<lparr>state = doc 3, transitions = []\<rparr>, recording = True,
       stack = [doc 1, doc 3], index = 1, lastOp = ''insert''\<rparr>"
    by (simp add: typing_def hostEdit_def snapshot_def truthy_def pop_def canUndo_def
        splice_def push_def getState_def maximumDepth_def Let_def)
  have b: "stack (snd (snapshot (Some ''insert'') (hostEdit (doc 4)
      \<lparr>model = \<lparr>state = doc 3, transitions = []\<rparr>, recording = True,
       stack = [doc 1, doc 3], index = 1, lastOp = ''insert''\<rparr>))) = [doc 1, doc 4]"
    by (simp add: hostEdit_def snapshot_def truthy_def pop_def canUndo_def splice_def push_def
        getState_def maximumDepth_def Let_def)
  show ?thesis unfolding a b by (simp add: typing_def)
qed

lemma coalescing_with_redo_branch:
  "stack depth3_undone = [doc 1, doc 2, doc 3] \<and>
   stack (snd (snapshot (Some ''insert'')
     (hostEdit (doc 5) (snd (snapshot (Some ''insert'') (hostEdit (doc 4) depth3_undone)))))) =
     [doc 1, doc 2, doc 5]"
proof -
  have a: "snd (snapshot (Some ''insert'') (hostEdit (doc 4) depth3_undone)) =
      \<lparr>model = \<lparr>state = doc 4,
                transitions = [\<lparr>silenceNotifications = False, type = ''undo''\<rparr>]\<rparr>,
       recording = True, stack = [doc 1, doc 2, doc 4], index = 2, lastOp = ''insert''\<rparr>"
    by (simp add: depth3_undone_def hostEdit_def snapshot_def truthy_def splice_def push_def
        getState_def maximumDepth_def Let_def)
  have b: "stack (snd (snapshot (Some ''insert'') (hostEdit (doc 5)
      \<lparr>model = \<lparr>state = doc 4,
                transitions = [\<lparr>silenceNotifications = False, type = ''undo''\<rparr>]\<rparr>,
       recording = True, stack = [doc 1, doc 2, doc 4], index = 2, lastOp = ''insert''\<rparr>))) =
      [doc 1, doc 2, doc 5]"
    by (simp add: hostEdit_def snapshot_def truthy_def pop_def canUndo_def splice_def push_def
        getState_def maximumDepth_def Let_def)
  show ?thesis unfolding a b by (simp add: depth3_undone_def)
qed

lemma coalescing_on_full_stack:
  assumes "position_valid u" "recording u" "length (stack u) = maximumDepth" "\<not> canRedo u"
    and "t \<noteq> ''''"
    and "u1 = snd (snapshot (Some t) u)"
    and "u2 = snd (snapshot (Some t) (hostEdit d u1))"
  shows "length (stack u2) = length (stack u)"
proof -
  have db: "depth_bounded u" using assms(3) by (simp add: depth_bounded_def)
  have s1: "snapshot (Some t) u = (True, u1)"
    using snapshot_eq [OF assms(1,2), of "Some t"] assms(6) by simp
  have v1: "position_valid u1"
    unfolding assms(6) using position_valid_snapshot [OF assms(1)] .
  have d1: "depth_bounded u1"
    unfolding assms(6) using depth_bounded_snapshot [OF assms(1) db] .
  have n1: "recording u1" "index u1 = int (length (stack u1)) - 1" "stack u1 \<noteq> []"
    using snapshot_newest [OF assms(1,2) s1] by simp_all
  have t1: "lastOp u1 = t"
    unfolding assms(6) snapshot_fields(3) [OF assms(1,2)] by simp
  have iu: "index u = int maximumDepth - 1"
    using assms(1,3,4) by (auto simp: position_valid_def canRedo_def)
  have k: "kept (Some t) u = maximumDepth \<or> kept (Some t) u = maximumDepth - 1"
    by (auto simp: kept_def iu maximumDepth_def)
  have l1: "length (stack u1) = maximumDepth"
    unfolding assms(6) snapshot_fields(1) [OF assms(1,2)]
    using k length_recorded [OF assms(1), of "Some t"] by (auto simp: maximumDepth_def)
  then have "canUndo u1"
    using n1(2) by (simp add: canUndo_def maximumDepth_def)
  then have "stack u2 = butlast (stack u1) @ [d]"
    using second_snapshot(1) [OF v1 d1 n1(1) assms(5) t1 n1(2,3) assms(7)] by simp
  then have "length (stack u2) = length (stack u1)"
    using n1(3) by (cases "stack u1" rule: rev_cases) auto
  then show ?thesis by (simp add: l1 assms(3))
qed

subsection \<open>The recording flag along a history\<close>

lemma apply_call_recording:
  assumes "apply_call c u = Inr u'" "c \<noteq> StartRecording" "\<not> recording u"
  shows "\<not> recording u'"
proof (cases c)
  case (StopCoalescing sel)
  then show ?thesis using assms
    by (auto simp: stopCoalescing_def split: option.splits if_splits)
next
  case (Snapshot op)
  then show ?thesis using assms by (auto simp: snapshot_off)
next
  case Pop
  then show ?thesis using assms by (auto simp: pop_eq split: if_splits)
next
  case Undo
  then show ?thesis using assms
    by (auto simp: undo_def split: if_splits option.splits sum.splits)
next
  case Redo
  then show ?thesis using assms
    by (auto simp: redo_def Let_def split: if_splits option.splits sum.splits)
qed (use assms in \<open>auto simp: reset_def stopRecording_def hostEdit_def\<close>)

lemma run_recording:
  "run cs u = Inr u' \<Longrightarrow> StartRecording \<notin> set cs \<Longrightarrow> \<not> recording u \<Longrightarrow> \<not> recording u'"
proof (induction cs arbitrary: u)
  case Nil
  then show ?case by simp
next
  case (Cons c cs)
  from Cons.prems(1) obtain u1 where u1: "apply_call c u = Inr u1" "run cs u1 = Inr u'"
    by (auto split: sum.splits)
  have "\<not> recording u1"
    using apply_call_recording [OF u1(1)] Cons.prems(2,3) by auto
  then show ?case using Cons.IH [OF u1(2)] Cons.prems(2) by simp
qed

text \<open>
  C8. While recording is disabled, \<open>snapshot(op)\<close> returns false and leaves the whole
  object unchanged (stack, index and tag among its fields), for every \<open>op\<close>; and it
  returns false in no other state. Recording is disabled on a constructed object and
  after \<open>stopRecording\<close>, and it stays so along every history that does not call
  \<open>startRecording\<close>.
\<close>

theorem snapshot_recording_gate:
  "(\<not> recording u \<longrightarrow> snapshot op u = (False, u)) \<and>
   (fst (snapshot op u) = False) = (\<not> recording u) \<and>
   \<not> recording (constructor m) \<and> \<not> recording (stopRecording u) \<and>
   (\<forall>u'. StartRecording \<notin> set cs \<and> run cs (constructor m) = Inr u' \<longrightarrow>
      snapshot op u' = (False, u')) \<and>
   (\<forall>u'. StartRecording \<notin> set cs \<and> run cs (stopRecording u) = Inr u' \<longrightarrow>
      snapshot op u' = (False, u'))"
proof -
  have a: "\<not> recording (constructor m)" "\<not> recording (stopRecording u)"
    by (simp_all add: constructor_def reset_def stopRecording_def)
  have b: "(fst (snapshot op u) = False) = (\<not> recording u)"
    by (simp add: snapshot_def Let_def)
  have c: "snapshot op u' = (False, u')"
    if "StartRecording \<notin> set cs" "run cs (constructor m) = Inr u'" for u'
    using run_recording [OF that(2,1) a(1)] by (rule snapshot_off)
  have d: "snapshot op u' = (False, u')"
    if "StartRecording \<notin> set cs" "run cs (stopRecording u) = Inr u'" for u'
    using run_recording [OF that(2,1) a(2)] by (rule snapshot_off)
  from a b c d show ?thesis by (simp add: snapshot_off)
qed

theorem snapshot_recording_gate_witness:
  "\<not> recording fresh \<and> snapshot (Some ''insert'') fresh = (False, fresh) \<and>
   run [HostEdit (doc 1), Snapshot (Some ''insert'')] fresh = Inr (hostEdit (doc 1) fresh) \<and>
   snapshot None (hostEdit (doc 1) fresh) = (False, hostEdit (doc 1) fresh) \<and>
   snapshot None (stopRecording depth3) = (False, stopRecording depth3) \<and>
   fst (snapshot None depth3) = True"
proof -
  let ?m = "\<lparr>state = doc 0, transitions = []\<rparr> :: (nat, nat) ModelPrivate"
  let ?cs = "[HostEdit (doc 1), Snapshot (Some ''insert'')] :: (nat, nat) call list"
  have f: "\<not> recording fresh"
    by (simp add: fresh_def constructor_def reset_def)
  have r: "run ?cs fresh = Inr (hostEdit (doc 1) fresh)"
    using f by (simp add: snapshot_def hostEdit_def)
  have n: "StartRecording \<notin> set ?cs" by simp
  have g: "recording depth3" by (simp add: depth3_def)
  note gate1 = snapshot_recording_gate [of fresh "Some ''insert''" ?m ?cs]
  note gate2 = snapshot_recording_gate [of "stopRecording depth3" None ?m ?cs, folded fresh_def]
  note gate3 = snapshot_recording_gate [of depth3 None ?m ?cs]
  have 1: "snapshot (Some ''insert'') fresh = (False, fresh)" using gate1 f by blast
  have 2: "snapshot None (hostEdit (doc 1) fresh) = (False, hostEdit (doc 1) fresh)"
    using gate2 n r by blast
  have 3: "snapshot None (stopRecording depth3) = (False, stopRecording depth3)"
    using gate2 by (simp add: stopRecording_def)
  have 4: "fst (snapshot None depth3) = True" using gate3 g by simp
  from f r 1 2 3 4 show ?thesis by simp
qed

end
